theory Spec2Isabelle
  imports Main "HOL-Library.Word" "HOL-Library.Sublist"
begin

unbundle bit_operations_syntax

section \<open>Errors and the file system\<close>

text \<open>
  Go errors are values. The ones this program meets are the sentinel and constructed
  errors of \<open>errors.New\<close> (\<open>ErrorString\<close>), the \<open>*fs.PathError\<close> that \<open>os.Open\<close>,
  \<open>os.ReadFile\<close>, \<open>os.MkdirAll\<close> and \<open>ioutil.WriteFile\<close> return, and the wrappers built
  by \<open>fmt.Errorf("...: %w", err)\<close> (\<open>Wrap\<close> holds the text before the wrapped error).
\<close>

datatype errno = ENOENT | EACCES | EIO

datatype error =
    ErrorString string
  | PathError string string errno
  | Wrap string error

text \<open>\<open>os.ErrNotExist\<close>, the sentinel of package \<open>os\<close>.\<close>

definition ErrNotExist :: error where
  "ErrNotExist = ErrorString ''file does not exist''"

text \<open>
  A path names nothing (\<open>Missing\<close>), something that may not be opened (\<open>Denied\<close>),
  a file that opens and whose read fails after some bytes (\<open>Broken\<close>), or a file
  with its content. Strings are byte strings, one \<open>char\<close> per byte.
\<close>

datatype file_state = Missing | Denied | Broken string | Content string

record world =
  files :: "string \<Rightarrow> file_state"
  mkdir_denied :: "string \<Rightarrow> bool"
  write_denied :: "string \<Rightarrow> bool"
  stdout :: string

text \<open>
  An \<open>io.Reader\<close> delivers its bytes and then either ends or fails.
\<close>

record reader =
  bytes :: string
  read_error :: "error option"

definition buffer :: "string \<Rightarrow> reader" where
  "buffer s = \<lparr>bytes = s, read_error = None\<rparr>"

definition os_Open :: "world \<Rightarrow> string \<Rightarrow> error + reader" where
  "os_Open w path =
     (case files w path of
        Missing \<Rightarrow> Inl (PathError ''open'' path ENOENT)
      | Denied \<Rightarrow> Inl (PathError ''open'' path EACCES)
      | Broken c \<Rightarrow> Inr \<lparr>bytes = c, read_error = Some (PathError ''read'' path EIO)\<rparr>
      | Content c \<Rightarrow> Inr (buffer c))"

definition os_ReadFile :: "world \<Rightarrow> string \<Rightarrow> error + string" where
  "os_ReadFile w path =
     (case files w path of
        Missing \<Rightarrow> Inl (PathError ''open'' path ENOENT)
      | Denied \<Rightarrow> Inl (PathError ''open'' path EACCES)
      | Broken c \<Rightarrow> Inl (PathError ''read'' path EIO)
      | Content c \<Rightarrow> Inr c)"

section \<open>Compare: the streaming equality check\<close>

text \<open>
  \<open>fnv.New128()\<close> of Go's \<open>hash/fnv\<close> is the 128-bit FNV-1 hash: the state starts at the
  offset basis, and every byte written multiplies the state by the FNV prime
  \<open>2^88 + 0x13b\<close> modulo \<open>2^128\<close> and then xors the byte into its low bits.
  \<open>Sum(nil)\<close> is the state as 16 big-endian bytes, so two sums are equal as byte
  slices exactly when the states are equal.
\<close>

type_synonym sum128 = "128 word"

definition offset128 :: sum128 where
  "offset128 = 0x6c62272e07bb014262b821756295c58d"

definition prime128 :: sum128 where
  "prime128 = 0x0000000001000000000000000000013B"

fun sum128_Write :: "sum128 \<Rightarrow> string \<Rightarrow> sum128" where
  "sum128_Write s [] = s"
| "sum128_Write s (c # cs) = sum128_Write ((s * prime128) XOR of_char c) cs"

definition fnv128 :: "string \<Rightarrow> sum128" where
  "fnv128 data = sum128_Write offset128 data"

text \<open>\<open>io.Copy\<close> into the hash: the sum of all the bytes, or the reader's failure.\<close>

definition io_Copy :: "reader \<Rightarrow> error + sum128" where
  "io_Copy r =
     (case read_error r of
        Some e \<Rightarrow> Inl e
      | None \<Rightarrow> Inr (fnv128 (bytes r)))"

definition Compare :: "reader \<Rightarrow> reader \<Rightarrow> error + bool" where
  "Compare r1 r2 =
     (case io_Copy r1 of
        Inl e \<Rightarrow> Inl (Wrap ''gomarkdoc: failed when checking documentation: '' e)
      | Inr r1Hash \<Rightarrow>
          (case io_Copy r2 of
             Inl e \<Rightarrow> Inl (Wrap ''gomarkdoc: failed when checking documentation: '' e)
           | Inr r2Hash \<Rightarrow> Inr (r1Hash = r2Hash)))"

section \<open>CheckFile: the verify policy\<close>

definition checkErr :: error where
  "checkErr = ErrorString ''Output does not match current files. Did you forget to run gomarkdoc?''"

text \<open>
  \<open>CheckFile(b, path)\<close>: \<open>b\<close> is the buffer holding the rendered text. The function
  returns an error or nothing; it has no access to the world beyond reading it.
\<close>

definition CheckFile :: "world \<Rightarrow> string \<Rightarrow> string \<Rightarrow> error option" where
  "CheckFile w b path =
     (case os_Open w path of
        Inl err \<Rightarrow>
          if err = ErrNotExist then Some checkErr
          else Some (Wrap (''failed to open file '' @ path @ '' for checking: '') err)
      | Inr f \<Rightarrow>
          (case Compare (buffer b) f of
             Inl err \<Rightarrow>
               Some (Wrap (''failure while attempting to Check contents of '' @ path @ '': '') err)
           | Inr match \<Rightarrow> if \<not> match then Some checkErr else None))"

section \<open>Paths\<close>

text \<open>
  The separator is \<open>/\<close> (\<open>os.PathSeparator\<close> on Unix, where \<open>filepath.FromSlash\<close> is
  the identity and \<open>filepath.IsAbs\<close> tests for a leading separator).
\<close>

definition PathSeparator :: char where
  "PathSeparator = CHR ''/''"

fun split_from :: "char \<Rightarrow> string \<Rightarrow> string \<Rightarrow> string list" where
  "split_from sep cur [] = [cur]"
| "split_from sep cur (c # cs) =
     (if c = sep then cur # split_from sep [] cs else split_from sep (cur @ [c]) cs)"

text \<open>\<open>strings.Split(s, sep)\<close> for a separator of one byte.\<close>

definition Split :: "string \<Rightarrow> char \<Rightarrow> string list" where
  "Split s sep = split_from sep [] s"

fun join_with :: "string \<Rightarrow> string list \<Rightarrow> string" where
  "join_with sep [] = []"
| "join_with sep [x] = x"
| "join_with sep (x # y # ys) = x @ sep @ join_with sep (y # ys)"

text \<open>
  \<open>filepath.Clean\<close>, element by element: empty elements and \<open>.\<close> are dropped, \<open>..\<close>
  removes the element before it when there is one to remove, is kept in front of a
  path that is not rooted, and is dropped at the root; the empty result is \<open>.\<close>.
\<close>

fun clean_elems :: "bool \<Rightarrow> string list \<Rightarrow> string list \<Rightarrow> string list" where
  "clean_elems rooted out [] = out"
| "clean_elems rooted out (e # es) =
     (if e = [] \<or> e = ''.'' then clean_elems rooted out es
      else if e = ''..'' then
        (if out \<noteq> [] \<and> last out \<noteq> ''..'' then clean_elems rooted (butlast out) es
         else if \<not> rooted then clean_elems rooted (out @ [''..'']) es
         else clean_elems rooted out es)
      else clean_elems rooted (out @ [e]) es)"

definition Clean :: "string \<Rightarrow> string" where
  "Clean path =
     (if path = [] then ''.''
      else
        let rooted = (hd path = PathSeparator);
            out = clean_elems rooted [] (Split path PathSeparator);
            s = (if rooted then [PathSeparator] else []) @ join_with [PathSeparator] out
        in if s = [] then ''.'' else s)"

text \<open>\<open>filepath.Join\<close> of two elements, and \<open>filepath.Dir\<close>.\<close>

definition Join :: "string \<Rightarrow> string \<Rightarrow> string" where
  "Join a b =
     (if a \<noteq> [] then Clean (a @ [PathSeparator] @ b)
      else if b \<noteq> [] then Clean b
      else [])"

definition Dir_of :: "string \<Rightarrow> string" where
  "Dir_of path = Clean (rev (dropWhile (\<lambda>c. c \<noteq> PathSeparator) (rev path)))"

definition cwdPathPrefix :: string where
  "cwdPathPrefix = ''.'' @ [PathSeparator]"

definition parentPathPrefix :: string where
  "parentPathPrefix = ''..'' @ [PathSeparator]"

definition IsLocalPath :: "string \<Rightarrow> bool" where
  "IsLocalPath path \<longleftrightarrow>
     prefix cwdPathPrefix path \<or> prefix parentPathPrefix path \<or> prefix [PathSeparator] path"

section \<open>WriteFile: the replace policy\<close>

definition WriteFile :: "world \<Rightarrow> string \<Rightarrow> string \<Rightarrow> error + world" where
  "WriteFile w fileName text =
     (let folder = Dir_of fileName in
      if folder \<noteq> [] \<and> mkdir_denied w folder then
        Inl (Wrap (''failed to create folder '' @ folder @ '': '')
               (PathError ''mkdir'' folder EACCES))
      else if write_denied w fileName then
        Inl (Wrap (''failed to write file '' @ fileName @ '': '')
               (PathError ''open'' fileName EACCES))
      else Inr (w\<lparr>files := (files w)(fileName := Content text)\<rparr>))"

section \<open>The embed markers\<close>

text \<open>
  The two patterns of \<open>output.go\<close> are sequences of these items: a literal byte, a
  greedy or lazy repetition of a character class, and the multi-line anchors. The
  classes are the space of \<open> *\<close>, the \<open>\s\<close> of Go's regexp syntax (tab, newline, form
  feed, carriage return, space) and the \<open>.\<close> under the \<open>s\<close> flag, which matches every
  byte. No flag makes the patterns case-insensitive.
\<close>

definition newline :: char where
  "newline = CHR 0x0A"

datatype cls = SpaceChar | Whitespace | AnyChar

fun in_cls :: "cls \<Rightarrow> char \<Rightarrow> bool" where
  "in_cls SpaceChar c = (c = CHR '' '')"
| "in_cls Whitespace c =
     (c = CHR 0x09 \<or> c = CHR 0x0A \<or> c = CHR 0x0C \<or> c = CHR 0x0D \<or> c = CHR '' '')"
| "in_cls AnyChar c = True"

datatype atom = Lit char | Star cls | LazyStar cls | Bol | Eol

type_synonym regex = "atom list"

definition lits :: "string \<Rightarrow> regex" where
  "lits s = map Lit s"

text \<open>\<open>(?m:^ *)<!--\s*gomarkdoc:Embed\s*-->(?m:\s*?$)\<close>\<close>

definition embedStandaloneRegex :: regex where
  "embedStandaloneRegex =
     [Bol, Star SpaceChar] @ lits ''<!--'' @ [Star Whitespace] @ lits ''gomarkdoc:Embed''
     @ [Star Whitespace] @ lits ''-->'' @ [LazyStar Whitespace, Eol]"

text \<open>
  \<open>(?m:^ *)<!--\s*gomarkdoc:Embed:start\s*-->(?s:.*?)<!--\s*gomarkdoc:Embed:end\s*-->(?m:\s*?$)\<close>
\<close>

definition embedStartRegex :: regex where
  "embedStartRegex =
     [Bol, Star SpaceChar] @ lits ''<!--'' @ [Star Whitespace]
     @ lits ''gomarkdoc:Embed:start'' @ [Star Whitespace] @ lits ''-->'' @ [LazyStar AnyChar]
     @ lits ''<!--'' @ [Star Whitespace] @ lits ''gomarkdoc:Embed:end'' @ [Star Whitespace]
     @ lits ''-->'' @ [LazyStar Whitespace, Eol]"

text \<open>
  Matching at one position. Go's \<open>regexp\<close> returns, among the matches that start
  leftmost, the one a backtracking search finds first: a greedy repetition tries one
  more byte before it tries the rest of the pattern, a lazy one the other way round.
  \<open>match_here re prev s\<close> is the length of that match of \<open>re\<close> at the start of \<open>s\<close>,
  where \<open>prev\<close> is the byte before \<open>s\<close> in the text, if any: \<open>^\<close> under the \<open>m\<close> flag holds
  at the start of the text and after a newline, \<open>$\<close> at its end and before a newline.
\<close>

fun match_here :: "regex \<Rightarrow> char option \<Rightarrow> string \<Rightarrow> nat option" where
  "match_here [] prev s = Some 0"
| "match_here (Lit c # r) prev [] = None"
| "match_here (Lit c # r) prev (x # xs) =
     (if x = c then map_option Suc (match_here r (Some x) xs) else None)"
| "match_here (Bol # r) prev s =
     (if prev = None \<or> prev = Some newline then match_here r prev s else None)"
| "match_here (Eol # r) prev [] = match_here r prev []"
| "match_here (Eol # r) prev (x # xs) =
     (if x = newline then match_here r prev (x # xs) else None)"
| "match_here (Star k # r) prev [] = match_here r prev []"
| "match_here (Star k # r) prev (x # xs) =
     (if in_cls k x then
        (case match_here (Star k # r) (Some x) xs of
           Some n \<Rightarrow> Some (Suc n)
         | None \<Rightarrow> match_here r prev (x # xs))
      else match_here r prev (x # xs))"
| "match_here (LazyStar k # r) prev [] = match_here r prev []"
| "match_here (LazyStar k # r) prev (x # xs) =
     (case match_here r prev (x # xs) of
        Some n \<Rightarrow> Some n
      | None \<Rightarrow>
          if in_cls k x then map_option Suc (match_here (LazyStar k # r) (Some x) xs)
          else None)"

text \<open>
  \<open>ReplaceAllFunc\<close>: the text is scanned from left to right; the leftmost match from
  the current position on is replaced by the result of the callback and the scan
  goes on behind it; bytes outside every match are copied. An empty match is not
  replaced when it comes right behind another match (\<open>after\<close>), and the scan then
  advances by one byte. The second component counts the calls of the callback,
  which \<open>EmbedContents\<close> counts in \<open>replacements\<close>; the callback returns \<open>repl\<close>.
\<close>

fun replace_from :: "regex \<Rightarrow> string \<Rightarrow> bool \<Rightarrow> char option \<Rightarrow> string \<Rightarrow> string \<times> nat" where
  "replace_from re repl after prev [] =
     (case match_here re prev [] of
        Some n \<Rightarrow> if after then ([], 0) else (repl, 1)
      | None \<Rightarrow> ([], 0))"
| "replace_from re repl after prev (x # xs) =
     (case match_here re prev (x # xs) of
        None \<Rightarrow>
          (let (out, k) = replace_from re repl False (Some x) xs in (x # out, k))
      | Some 0 \<Rightarrow>
          (let (out, k) = replace_from re repl False (Some x) xs
           in if after then (x # out, k) else (repl @ x # out, Suc k))
      | Some (Suc n) \<Rightarrow>
          (let (out, k) = replace_from re repl True (Some (last (x # take n xs))) (drop n xs)
           in (repl @ out, Suc k)))"

definition ReplaceAllFunc :: "regex \<Rightarrow> string \<Rightarrow> string \<Rightarrow> string \<times> nat" where
  "ReplaceAllFunc re src repl = replace_from re repl False None src"

section \<open>EmbedContents: the merge policy\<close>

definition embedText :: "string \<Rightarrow> string" where
  "embedText text =
     ''<!-- gomarkdoc:Embed:start -->'' @ [newline, newline] @ text
     @ [newline, newline] @ ''<!-- gomarkdoc:Embed:end -->''"

definition EmbedContents :: "world \<Rightarrow> string \<Rightarrow> string \<Rightarrow> string" where
  "EmbedContents w fileName text =
     (case os_ReadFile w fileName of
        Inl err \<Rightarrow> embedText text
      | Inr data \<Rightarrow>
          (let (data1, n1) = ReplaceAllFunc embedStandaloneRegex data (embedText text);
               (data2, n2) = ReplaceAllFunc embedStartRegex data1 (embedText text);
               replacements = n1 + n2
           in if replacements = 0 then data2 @ [newline, newline] @ text else data2))"

section \<open>Package specifications and options\<close>

text \<open>
  \<open>PackageSpec\<close>; \<open>Pkg\<close> is a pointer to a loaded \<open>lang.Package\<close>, \<open>None\<close> for \<open>nil\<close>. The
  package model itself belongs to another package and stays a type parameter.
\<close>

record 'pkg PackageSpec =
  Dir :: string
  ImportPath :: string
  IsWildcard :: bool
  IsLocal :: bool
  OutputFile :: string
  Pkg :: "'pkg option"

text \<open>The fields of \<open>CommandOptions\<close> that \<open>WriteOutput\<close> and its callees read.\<close>

record CommandOptions =
  Header :: string
  HeaderFile :: string
  Footer :: string
  FooterFile :: string
  Check :: bool
  Embed :: bool

text \<open>\<open>lang.NewFile(header, footer, pkgs)\<close>\<close>

record 'pkg File =
  FileHeader :: string
  FileFooter :: string
  Packages :: "'pkg list"

definition ResolveHeader :: "world \<Rightarrow> CommandOptions \<Rightarrow> error + string" where
  "ResolveHeader w opts =
     (if Header opts \<noteq> [] then Inr (Header opts)
      else if HeaderFile opts \<noteq> [] then
        (case os_ReadFile w (HeaderFile opts) of
           Inl err \<Rightarrow> Inl (Wrap ''gomarkdoc: couldn't resolve Header file: '' err)
         | Inr b \<Rightarrow> Inr b)
      else Inr [])"

definition ResolveFooter :: "world \<Rightarrow> CommandOptions \<Rightarrow> error + string" where
  "ResolveFooter w opts =
     (if Footer opts \<noteq> [] then Inr (Footer opts)
      else if FooterFile opts \<noteq> [] then
        (case os_ReadFile w (FooterFile opts) of
           Inl err \<Rightarrow> Inl (Wrap ''gomarkdoc: couldn't resolve Footer file: '' err)
         | Inr b \<Rightarrow> Inr b)
      else Inr [])"

section \<open>WriteOutput\<close>

text \<open>
  The first loop of \<open>WriteOutput\<close>: \<open>filePkgs\<close> maps every output file to the packages
  of the specifications that name it, appended in the order of \<open>specs\<close>; a
  specification without a package is skipped.
\<close>

fun collect :: "('pkg PackageSpec) list \<Rightarrow> (string \<rightharpoonup> 'pkg list) \<Rightarrow> (string \<rightharpoonup> 'pkg list)" where
  "collect [] m = m"
| "collect (spec # specs) m =
     (case Pkg spec of
        None \<Rightarrow> collect specs m
      | Some p \<Rightarrow>
          collect specs
            (m(OutputFile spec \<mapsto> (case m (OutputFile spec) of None \<Rightarrow> [] | Some ps \<Rightarrow> ps) @ [p])))"

definition filePkgs :: "('pkg PackageSpec) list \<Rightarrow> (string \<rightharpoonup> 'pkg list)" where
  "filePkgs specs = collect specs Map.empty"

text \<open>
  The body of the second loop after rendering: what is done with the text of one
  output file.
\<close>

definition write_unit :: "CommandOptions \<Rightarrow> world \<Rightarrow> string \<Rightarrow> string \<Rightarrow> error + world" where
  "write_unit opts w fileName text0 =
     (let text = (if Embed opts \<and> fileName \<noteq> [] then EmbedContents w fileName text0 else text0) in
      if fileName = [] then Inr (w\<lparr>stdout := stdout w @ text\<rparr>)
      else if Check opts then
        (case CheckFile w text fileName of
           Some err \<Rightarrow> Inl err
         | None \<Rightarrow> Inr w)
      else
        (case WriteFile w fileName text of
           Inl err \<Rightarrow> Inl (Wrap (''failed to write Output file '' @ fileName @ '': '') err)
         | Inr w' \<Rightarrow> Inr w'))"


fun write_units ::
  "('pkg File \<Rightarrow> error + string) \<Rightarrow> CommandOptions \<Rightarrow> string \<Rightarrow> string \<Rightarrow>
   (string \<rightharpoonup> 'pkg list) \<Rightarrow> string list \<Rightarrow> world \<Rightarrow> error + world" where
  "write_units out opts header footer m [] w = Inr w"
| "write_units out opts header footer m (fileName # rest) w =
     (case m fileName of
        None \<Rightarrow> write_units out opts header footer m rest w
      | Some pkgs \<Rightarrow>
          (case out \<lparr>FileHeader = header, FileFooter = footer, Packages = pkgs\<rparr> of
             Inl err \<Rightarrow> Inl err
           | Inr text \<Rightarrow>
               (case write_unit opts w fileName text of
                  Inl err \<Rightarrow> Inl err
                | Inr w' \<Rightarrow> write_units out opts header footer m rest w')))"

text \<open>
  \<open>WriteOutput\<close>. The renderer is built by \<open>ResolveOverrides\<close> and
  \<open>gomarkdoc.NewRenderer\<close> of the library; \<open>renderer\<close> is what they give, an error or
  the function \<open>out.File\<close>.
\<close>

definition WriteOutput ::
  "(error + ('pkg File \<Rightarrow> error + string)) \<Rightarrow> string list \<Rightarrow> ('pkg PackageSpec) list \<Rightarrow>
   CommandOptions \<Rightarrow> world \<Rightarrow> error + world" where
  "WriteOutput renderer order specs opts w =
     (case renderer of
        Inl err \<Rightarrow> Inl err
      | Inr out \<Rightarrow>
          (case ResolveHeader w opts of
             Inl err \<Rightarrow> Inl err
           | Inr header \<Rightarrow>
               (case ResolveFooter w opts of
                  Inl err \<Rightarrow> Inl err
                | Inr footer \<Rightarrow>
                    write_units out opts header footer (filePkgs specs) order w)))"

section \<open>DefaultTags\<close>

text \<open>
  \<open>strings.Fields\<close>: the maximal runs of bytes that are not white space (the six ASCII
  white-space bytes; the flags string is read as ASCII).
\<close>

definition isSpace :: "char \<Rightarrow> bool" where
  "isSpace c \<longleftrightarrow>
     c = CHR 0x09 \<or> c = CHR 0x0A \<or> c = CHR 0x0B \<or> c = CHR 0x0C \<or> c = CHR 0x0D \<or> c = CHR '' ''"

fun fields_from :: "string \<Rightarrow> string \<Rightarrow> string list" where
  "fields_from cur [] = (if cur = [] then [] else [cur])"
| "fields_from cur (c # cs) =
     (if isSpace c then (if cur = [] then fields_from [] cs else cur # fields_from [] cs)
      else fields_from (cur @ [c]) cs)"

definition Fields :: "string \<Rightarrow> string list" where
  "Fields s = fields_from [] s"

text \<open>
  Package \<open>flag\<close>, for a flag set whose flags are all string flags: the set is the map
  from the names defined to their current values. \<open>parseOne\<close> reads one flag from the
  front of the arguments: it stops without error at the end, at an argument that is
  not a flag and behind \<open>--\<close>; it fails on a malformed flag, on a name that is not
  defined and on a flag without value; otherwise it stores the value, which follows
  \<open>=\<close> or is the next argument.
\<close>

datatype parse_result =
    Stop "string list"
  | Failed error
  | Seen "string \<rightharpoonup> string" "string list"

definition ErrHelp :: error where
  "ErrHelp = ErrorString ''flag: help requested''"

fun split_name :: "string \<Rightarrow> string \<Rightarrow> string \<times> bool \<times> string" where
  "split_name done [] = (done, False, [])"
| "split_name done (c # cs) =
     (if c = CHR ''='' \<and> done \<noteq> [] then (done, True, cs) else split_name (done @ [c]) cs)"

definition parseOne :: "(string \<rightharpoonup> string) \<Rightarrow> string list \<Rightarrow> parse_result" where
  "parseOne formal args =
     (case args of
        [] \<Rightarrow> Stop []
      | s # rest \<Rightarrow>
          if length s < 2 \<or> hd s \<noteq> CHR ''-'' then Stop args
          else if s ! 1 = CHR ''-'' \<and> length s = 2 then Stop rest
          else
            let numMinuses = (if s ! 1 = CHR ''-'' then 2 else 1);
                name0 = drop numMinuses s
            in if name0 = [] \<or> hd name0 = CHR ''-'' \<or> hd name0 = CHR ''='' then
                 Failed (ErrorString (''bad flag syntax: '' @ s))
               else
                 (case split_name [] name0 of (name, hasValue, val) \<Rightarrow>
                    (case formal name of
                       None \<Rightarrow>
                         if name = ''help'' \<or> name = ''h'' then Failed ErrHelp
                         else Failed (ErrorString (''flag provided but not defined: -'' @ name))
                     | Some old \<Rightarrow>
                         if hasValue then Seen (formal(name \<mapsto> val)) rest
                         else
                           (case rest of
                              [] \<Rightarrow> Failed (ErrorString (''flag needs an argument: -'' @ name))
                            | v # rest' \<Rightarrow> Seen (formal(name \<mapsto> v)) rest'))))"

text \<open>\<open>Parse\<close> with \<open>flag.ContinueOnError\<close>: the first failure is returned.\<close>

function Parse :: "(string \<rightharpoonup> string) \<Rightarrow> string list \<Rightarrow> error + (string \<rightharpoonup> string)" where
  "Parse formal args =
     (case parseOne formal args of
        Stop rest \<Rightarrow> Inr formal
      | Failed err \<Rightarrow> Inl err
      | Seen formal' args' \<Rightarrow> Parse formal' args')"
  by pat_completeness auto
termination
  by (relation "measure (\<lambda>(formal, args). length args)")
     (auto simp: parseOne_def Let_def split: list.splits if_splits prod.splits option.splits)

text \<open>
  \<open>DefaultTags\<close>; the argument is the result of \<open>os.LookupEnv("GOFLAGS")\<close>, \<open>None\<close> when
  the variable is not set. The result \<open>nil\<close> is the empty list.
\<close>

definition DefaultTags :: "string option \<Rightarrow> string list" where
  "DefaultTags goflags =
     (case goflags of
        None \<Rightarrow> []
      | Some f \<Rightarrow>
          (case Parse [''Tags'' \<mapsto> ''''] (Fields f) of
             Inl err \<Rightarrow> []
           | Inr fs \<Rightarrow>
               (case fs ''Tags'' of
                  None \<Rightarrow> []
                | Some tags \<Rightarrow> Split tags (CHR '',''))))"

section \<open>GetSpecs: expanding the path arguments\<close>

definition ignoredDirs :: "string list" where
  "ignoredDirs = [''.git'']"

definition IsIgnoredDir :: "string \<Rightarrow> bool" where
  "IsIgnoredDir dirname \<longleftrightarrow> list_ex (\<lambda>ignored. ignored = dirname) ignoredDirs"

text \<open>An entry of a directory, as \<open>ioutil.ReadDir\<close> returns it.\<close>

record FileInfo =
  Name :: string
  IsDir :: bool

text \<open>
  The inner loop over the entries of the directory \<open>p\<close>: the paths of the
  sub-directories found, in the order of the entries. The source appends each of
  them to \<open>expanded\<close> as a wildcard specification and to the queue.
\<close>

fun sub_paths :: "string \<Rightarrow> FileInfo list \<Rightarrow> string list" where
  "sub_paths p [] = []"
| "sub_paths p (f # fs) =
     (if IsIgnoredDir (Name f) then sub_paths p fs
      else if IsDir f then
        (let subPath = Join p (Name f);
             subPath' = (if \<not> IsLocalPath subPath then cwdPathPrefix @ subPath else subPath)
         in subPath' # sub_paths p fs)
      else sub_paths p fs)"

definition local_spec :: "string \<Rightarrow> bool \<Rightarrow> 'pkg PackageSpec" where
  "local_spec path wildcard =
     \<lparr>Dir = path, ImportPath = path, IsWildcard = wildcard, IsLocal = True,
      OutputFile = [], Pkg = None\<rparr>"

definition remote_spec :: "string \<Rightarrow> 'pkg PackageSpec" where
  "remote_spec path =
     \<lparr>Dir = ''.'', ImportPath = path, IsWildcard = False, IsLocal = False,
      OutputFile = [], Pkg = None\<rparr>"

text \<open>
  The traversal with the queue: the front directory is read (\<open>readDir\<close>, \<open>None\<close> when
  \<open>ioutil.ReadDir\<close> fails), its sub-directories are appended to \<open>expanded\<close> and to the
  back of the queue, and the loop goes on with the next element. Nothing in the
  code bounds the loop, so it is a partial function: \<open>None\<close> is a run that never ends.
\<close>

partial_function (option) walk ::
  "(string \<Rightarrow> FileInfo list option) \<Rightarrow> string list \<Rightarrow> ('pkg PackageSpec) list \<Rightarrow>
   ('pkg PackageSpec) list option" where
  "walk readDir queue expanded =
     (case queue of
        [] \<Rightarrow> Some expanded
      | p # rest \<Rightarrow>
          (case readDir p of
             None \<Rightarrow> walk readDir rest expanded
           | Some entries \<Rightarrow>
               walk readDir (rest @ sub_paths p entries)
                 (expanded @ map (\<lambda>subPath. local_spec subPath True) (sub_paths p entries))))"

fun expand_paths ::
  "(string \<Rightarrow> FileInfo list option) \<Rightarrow> ('pkg PackageSpec) list \<Rightarrow> string list \<Rightarrow>
   ('pkg PackageSpec) list option" where
  "expand_paths readDir expanded [] = Some expanded"
| "expand_paths readDir expanded (path # paths) =
     (if \<not> suffix ([PathSeparator] @ ''...'') path then
        (let isLocal = IsLocalPath path
         in expand_paths readDir
              (expanded @ [if isLocal then local_spec path False else remote_spec path]) paths)
      else
        (let trimmedPath = take (length path - 3) path
         in if \<not> IsLocalPath trimmedPath then
              expand_paths readDir (expanded @ [remote_spec path]) paths
            else
              (case walk readDir [trimmedPath] (expanded @ [local_spec trimmedPath True]) of
                 None \<Rightarrow> None
               | Some expanded' \<Rightarrow> expand_paths readDir expanded' paths)))"

definition GetSpecs ::
  "(string \<Rightarrow> FileInfo list option) \<Rightarrow> string list \<Rightarrow> ('pkg PackageSpec) list option" where
  "GetSpecs readDir paths = expand_paths readDir [] paths"

section \<open>Notions of the specification\<close>



text \<open>A world with one file and nothing else, and a descriptor that is loaded.\<close>

definition one_file :: "string \<Rightarrow> file_state \<Rightarrow> world" where
  "one_file path st =
     \<lparr>files = (\<lambda>p. if p = path then st else Missing), mkdir_denied = (\<lambda>p. False),
      write_denied = (\<lambda>p. False), stdout = []\<rparr>"


text \<open>A directory tree for the scenario of the two path arguments.\<close>

definition example_tree :: "string \<Rightarrow> FileInfo list option" where
  "example_tree p =
     (if p = ''./pkgB/'' then
        Some [\<lparr>Name = ''.git'', IsDir = True\<rparr>, \<lparr>Name = ''b.go'', IsDir = False\<rparr>,
              \<lparr>Name = ''inner'', IsDir = True\<rparr>]
      else if p = ''./pkgB/inner'' then Some [\<lparr>Name = ''c.go'', IsDir = False\<rparr>]
      else None)"

section \<open>Notions for the properties of the markers\<close>

text \<open>The keyword of the markers, and the three markers as they are written in a file.\<close>

definition marker_keyword :: string where
  "marker_keyword = ''gomarkdoc:Embed''"

definition start_marker :: string where
  "start_marker = ''<!-- gomarkdoc:Embed:start -->''"

definition end_marker :: string where
  "end_marker = ''<!-- gomarkdoc:Embed:end -->''"


text \<open>The byte before the position reached after reading \<open>w\<close>, when \<open>prev\<close> was the byte before \<open>w\<close>.\<close>

definition lastc :: "char option \<Rightarrow> string \<Rightarrow> char option" where
  "lastc prev w = (if w = [] then prev else Some (last w))"

text \<open>
  Both patterns begin with the same items up to the keyword; what follows it is the rest
  of the standalone pattern, or the rest of the pattern of a region, which ends with
  the pattern of the end marker.
\<close>

definition marker_head :: "regex \<Rightarrow> regex" where
  "marker_head r = Bol # Star SpaceChar # lits ''<!--'' @ Star Whitespace # lits marker_keyword @ r"

definition standalone_rest :: regex where
  "standalone_rest = Star Whitespace # lits ''-->'' @ [LazyStar Whitespace, Eol]"

definition end_regex :: regex where
  "end_regex = lits ''<!--'' @ Star Whitespace # lits marker_keyword @ lits '':end''
     @ Star Whitespace # lits ''-->'' @ [LazyStar Whitespace, Eol]"

definition start_rest :: regex where
  "start_rest = lits '':start'' @ Star Whitespace # lits ''-->'' @ LazyStar AnyChar # end_regex"

section \<open>Properties of Compare\<close>

lemma of_char_word_inj: "(of_char c :: sum128) = of_char d \<Longrightarrow> c = d"
proof -
  assume a: "(of_char c :: sum128) = of_char d"
  have b: "unat (of_char e :: sum128) = of_char e" for e :: char
  proof -
    have "(of_char e :: nat) mod 256 < 256" by (rule mod_less_divisor) simp
    hence "(of_char e :: nat) < 256" by simp
    hence "(of_char e :: nat) < 2 ^ 128" by (rule less_trans) simp
    hence "unat (of_nat (of_char e) :: sum128) = of_char e"
      by (simp add: unat_of_nat)
    thus ?thesis by (simp add: of_nat_of_char)
  qed
  from a have "unat (of_char c :: sum128) = unat (of_char d :: sum128)" by simp
  hence "(of_char c :: nat) = of_char d" by (simp only: b)
  thus ?thesis by simp
qed

lemma prime128_inverse: "prime128 * 0xb1041ad2562ff2ff2ff2ff2ff2ff2ff3 = 1"
  by (simp add: prime128_def)

lemma mult_prime128_inj: "a * prime128 = b * prime128 \<Longrightarrow> a = b"
proof -
  assume "a * prime128 = b * prime128"
  hence "a * (prime128 * 0xb1041ad2562ff2ff2ff2ff2ff2ff2ff3)
       = b * (prime128 * 0xb1041ad2562ff2ff2ff2ff2ff2ff2ff3)"
    by (simp only: mult.assoc [symmetric])
  thus ?thesis by (simp only: prime128_inverse mult_1_right)
qed

lemma xor_cancel_right: "(a :: sum128) XOR c = b XOR c \<Longrightarrow> a = b"
proof -
  assume h: "a XOR c = b XOR c"
  have "a = (a XOR c) XOR c" by (simp add: xor.assoc)
  also have "\<dots> = (b XOR c) XOR c" by (simp only: h)
  also have "\<dots> = b" by (simp add: xor.assoc)
  finally show ?thesis .
qed

lemma xor_cancel_left: "(a :: sum128) XOR c = a XOR d \<Longrightarrow> c = d"
  using xor_cancel_right [of c a d] by (simp add: xor.commute)

lemma sum128_Write_inj: "sum128_Write a cs = sum128_Write b cs \<Longrightarrow> a = b"
proof (induction cs arbitrary: a b)
  case Nil
  thus ?case by simp
next
  case (Cons c cs)
  from Cons.prems have "sum128_Write ((a * prime128) XOR of_char c) cs
      = sum128_Write ((b * prime128) XOR of_char c) cs" by simp
  hence "(a * prime128) XOR of_char c = (b * prime128) XOR of_char c" by (rule Cons.IH)
  thus ?case using xor_cancel_right mult_prime128_inj by blast
qed

lemma sum128_Write_append:
  "sum128_Write s (xs @ ys) = sum128_Write (sum128_Write s xs) ys"
  by (induction xs arbitrary: s) simp_all

lemma fnv128_one_byte: "c \<noteq> d \<Longrightarrow> fnv128 (p @ c # q) \<noteq> fnv128 (p @ d # q)"
proof
  assume ne: "c \<noteq> d" and eq: "fnv128 (p @ c # q) = fnv128 (p @ d # q)"
  let ?s = "sum128_Write offset128 p"
  from eq have "sum128_Write ((?s * prime128) XOR of_char c) q
      = sum128_Write ((?s * prime128) XOR of_char d) q"
    by (simp add: fnv128_def sum128_Write_append)
  hence "(?s * prime128) XOR of_char c = (?s * prime128) XOR of_char d"
    by (rule sum128_Write_inj)
  hence "(of_char c :: sum128) = of_char d" by (rule xor_cancel_left)
  with ne show False using of_char_word_inj by blast
qed

lemma Compare_buffers: "Compare (buffer x) (buffer y) = Inr (fnv128 x = fnv128 y)"
  by (simp add: Compare_def io_Copy_def buffer_def)

text \<open>
  C8, as stated, fails: \<open>Compare\<close> answers \<open>true\<close> for these two different byte
  strings of equal length, whose FNV-1 sums of 128 bits are the same.
\<close>

theorem Compare_collision:
  "''z4gSH5I7P3AA994fZ6q8bV2P'' \<noteq> ''fca803Yhm4SOW6SpFUm9c05G''
   \<and> Compare (buffer ''z4gSH5I7P3AA994fZ6q8bV2P'') (buffer ''fca803Yhm4SOW6SpFUm9c05G'') = Inr True"
proof -
  have "fnv128 ''z4gSH5I7P3AA994fZ6q8bV2P'' = fnv128 ''fca803Yhm4SOW6SpFUm9c05G''"
    by code_simp
  thus ?thesis by (simp add: Compare_buffers)
qed

text \<open>
  C8, amended: on readers that do not fail, \<open>Compare\<close> is reflexive and symmetric, it
  answers \<open>false\<close> for two streams of the same length that differ in exactly one
  byte, and it answers \<open>false\<close> only for streams that differ.
\<close>

theorem Compare_equality:
  "Compare (buffer x) (buffer x) = Inr True
   \<and> Compare (buffer x) (buffer y) = Compare (buffer y) (buffer x)
   \<and> (c \<noteq> d \<longrightarrow> Compare (buffer (p @ c # q)) (buffer (p @ d # q)) = Inr False)
   \<and> (Compare (buffer x) (buffer y) = Inr False \<longrightarrow> x \<noteq> y)"
  by (auto simp: Compare_buffers fnv128_one_byte)

theorem Compare_equality_witness:
  "CHR ''c'' \<noteq> CHR ''f''
   \<and> Compare (buffer ''abc'') (buffer ''abf'') = Inr False
   \<and> Compare (buffer ''abc'') (buffer ''abc'') = Inr True
   \<and> Compare (buffer ''abc'') (buffer ''abf'') = Compare (buffer ''abf'') (buffer ''abc'')
   \<and> ''abc'' \<noteq> ''abf''"
  using Compare_equality [of "''abc''" "''abf''" "CHR ''c''" "CHR ''f''" "''ab''" "[]"]
  by auto

section \<open>Properties of CheckFile\<close>

lemma os_Open_never_ErrNotExist: "os_Open w path \<noteq> Inl ErrNotExist"
  by (simp add: os_Open_def ErrNotExist_def split: file_state.split)

lemma CheckFile_same_content:
  "files w path = Content text \<Longrightarrow> CheckFile w text path = None"
  by (simp add: CheckFile_def os_Open_def Compare_buffers)

text \<open>
  C2 fails on the code: for a destination that does not exist, \<open>os.Open\<close> returns a
  \<open>*PathError\<close>, which is never equal to the sentinel \<open>os.ErrNotExist\<close>, so \<open>CheckFile\<close>
  returns the wrapped error of the failed open and not the drift error.
\<close>

theorem CheckFile_missing_file:
  "CheckFile (one_file ''other.md'' (Content ''doc'')) ''doc'' ''README.md''
     = Some (Wrap ''failed to open file README.md for checking: ''
               (PathError ''open'' ''README.md'' ENOENT))
   \<and> CheckFile (one_file ''other.md'' (Content ''doc'')) ''doc'' ''README.md'' \<noteq> Some checkErr"
  by (simp add: CheckFile_def os_Open_def one_file_def ErrNotExist_def checkErr_def)

section \<open>Properties of write_unit\<close>

text \<open>
  C9: for the empty destination the text is written to standard output as it was
  rendered, whatever the flags are, and the files stay as they were.
\<close>

theorem write_unit_stdout:
  "write_unit opts w [] text = Inr (w\<lparr>stdout := stdout w @ text\<rparr>)"
  by (simp add: write_unit_def)

section \<open>Properties of DefaultTags\<close>

text \<open>
  C4, as stated, fails: the flag set defines the flag \<open>Tags\<close>, so \<open>-tags=foo,bar\<close> names
  a flag that is not defined, parsing fails and the tag list is empty.
\<close>

theorem DefaultTags_lower_case: "DefaultTags (Some ''-tags=foo,bar'') \<noteq> [''foo'', ''bar'']"
  by (simp add: DefaultTags_def Fields_def isSpace_def parseOne_def Split_def)

text \<open>
  C4, amended: the fallback string \<open>-Tags=foo,bar\<close> gives the tags \<open>foo\<close> and \<open>bar\<close>; the
  strings \<open>-tags=foo,bar\<close> and \<open>-other=x\<close> give the empty tag list; and every string
  on which parsing fails gives the empty tag list.
\<close>

theorem DefaultTags_fallback:
  "DefaultTags (Some ''-Tags=foo,bar'') = [''foo'', ''bar'']
   \<and> DefaultTags (Some ''-tags=foo,bar'') = []
   \<and> DefaultTags (Some ''-other=x'') = []
   \<and> (Parse [''Tags'' \<mapsto> ''''] (Fields f) = Inl err \<longrightarrow> DefaultTags (Some f) = [])"
  by (simp add: DefaultTags_def Fields_def isSpace_def parseOne_def Split_def)

theorem DefaultTags_fallback_witness:
  "Parse [''Tags'' \<mapsto> ''''] (Fields ''-Tags'') = Inl (ErrorString ''flag needs an argument: -Tags'')
   \<and> DefaultTags (Some ''-Tags'') = []"
  using DefaultTags_fallback [of "''-Tags''" "ErrorString ''flag needs an argument: -Tags''"]
  by (simp add: Fields_def isSpace_def parseOne_def)

text \<open>
  C10: when parsing stops before any flag is read (there is no argument, or the first
  one is not a flag), the value of \<open>Tags\<close> is still the empty string, and the result is
  the list with the empty string as its only element.
\<close>

theorem DefaultTags_no_flag:
  "parseOne [''Tags'' \<mapsto> ''''] (Fields f) = Stop rest \<Longrightarrow> DefaultTags (Some f) = ['''']"
  by (simp add: DefaultTags_def Split_def)

theorem DefaultTags_no_flag_witness:
  "parseOne [''Tags'' \<mapsto> ''''] (Fields '''') = Stop [] \<and> DefaultTags (Some '''') = ['''']"
  using DefaultTags_no_flag [of "''''" "[]"]
  by (simp add: Fields_def parseOne_def)

section \<open>Properties of the grouping by output file\<close>







section \<open>Properties of GetSpecs\<close>

lemma sub_paths_filter:
  "sub_paths p entries = sub_paths p (filter IsDir entries)"
  by (induction entries) (simp_all add: Let_def)

text \<open>
  C6: \<open>pkgB\<close> holds the directories \<open>.git\<close> and \<open>inner\<close> (and any files), and \<open>inner\<close>
  holds no directory. The arguments \<open>./pkgA\<close> and \<open>./pkgB/...\<close> are expanded to three
  descriptors in this order: \<open>pkgA\<close>, not a wildcard, then \<open>pkgB\<close> and \<open>pkgB/inner\<close>,
  both wildcards; there is none for \<open>.git\<close>.
\<close>

theorem GetSpecs_scenario:
  assumes pkgB: "readDir ''./pkgB/'' = Some entries"
      and dirs: "filter IsDir entries = [\<lparr>Name = ''.git'', IsDir = True\<rparr>, \<lparr>Name = ''inner'', IsDir = True\<rparr>]"
      and inner: "\<And>es. readDir ''./pkgB/inner'' = Some es \<Longrightarrow> filter IsDir es = []"
  shows "GetSpecs readDir [''./pkgA'', ''./pkgB/...''] =
    Some [\<lparr>Dir = ''./pkgA'', ImportPath = ''./pkgA'', IsWildcard = False, IsLocal = True,
            OutputFile = [], Pkg = None\<rparr>,
          \<lparr>Dir = ''./pkgB/'', ImportPath = ''./pkgB/'', IsWildcard = True, IsLocal = True,
            OutputFile = [], Pkg = None\<rparr>,
          \<lparr>Dir = ''./pkgB/inner'', ImportPath = ''./pkgB/inner'', IsWildcard = True,
            IsLocal = True, OutputFile = [], Pkg = None\<rparr>]"
proof -
  have sub: "sub_paths ''./pkgB/'' entries = [''./pkgB/inner'']"
    by (subst sub_paths_filter)
       (simp add: dirs IsIgnoredDir_def ignoredDirs_def Join_def Clean_def Split_def
          IsLocalPath_def cwdPathPrefix_def parentPathPrefix_def PathSeparator_def)
  have last_step: "walk readDir [''./pkgB/inner''] acc = Some acc" for acc :: "'a PackageSpec list"
  proof (cases "readDir ''./pkgB/inner''")
    case None
    thus ?thesis by (simp add: walk.simps)
  next
    case (Some es)
    with inner have "sub_paths ''./pkgB/inner'' es = []"
      by (subst sub_paths_filter) simp
    with Some show ?thesis by (simp add: walk.simps)
  qed
  show ?thesis
    by (simp add: GetSpecs_def IsLocalPath_def cwdPathPrefix_def parentPathPrefix_def
          PathSeparator_def suffix_def pkgB sub last_step local_spec_def Let_def
          walk.simps [of readDir "[''./pkgB/'']"])
qed

theorem GetSpecs_scenario_witness:
  "GetSpecs example_tree [''./pkgA'', ''./pkgB/...''] =
    Some [\<lparr>Dir = ''./pkgA'', ImportPath = ''./pkgA'', IsWildcard = False, IsLocal = True,
            OutputFile = [], Pkg = None\<rparr>,
          \<lparr>Dir = ''./pkgB/'', ImportPath = ''./pkgB/'', IsWildcard = True, IsLocal = True,
            OutputFile = [], Pkg = None\<rparr>,
          \<lparr>Dir = ''./pkgB/inner'', ImportPath = ''./pkgB/inner'', IsWildcard = True,
            IsLocal = True, OutputFile = [], Pkg = None\<rparr>]"
  by (rule GetSpecs_scenario [of example_tree]) (auto simp: example_tree_def)

section \<open>Properties of the matcher\<close>

lemma lastc_simps [simp]: "lastc prev [] = prev" "lastc prev (x # xs) = lastc (Some x) xs"
  "lastc prev (xs @ [y]) = Some y"
  by (simp_all add: lastc_def)

lemma lastc_append: "lastc prev (xs @ ys) = lastc (lastc prev xs) ys"
  by (simp add: lastc_def)

lemma match_here_le: "match_here re prev s = Some n \<Longrightarrow> n \<le> length s"
proof (induction re prev s arbitrary: n rule: match_here.induct)
  case (8 k r prev x xs)
  then show ?case by (fastforce split: if_splits option.splits)
next
  case (10 k r prev x xs)
  then show ?case by (fastforce split: if_splits option.splits)
qed (auto split: if_splits)

lemma lits_run:
  "match_here (lits w @ r) prev (w @ t) = map_option ((+) (length w)) (match_here r (lastc prev w) t)"
proof (induction w arbitrary: prev)
  case Nil
  show ?case by (simp add: lits_def option.map_ident)
next
  case (Cons c w)
  have "match_here (lits (c # w) @ r) prev ((c # w) @ t)
      = map_option Suc (match_here (lits w @ r) (Some c) (w @ t))"
    by (simp add: lits_def)
  thus ?case by (simp add: Cons.IH option.map_comp comp_def)
qed

lemma lits_shape:
  "match_here (lits w @ r) prev s = Some n \<Longrightarrow>
     \<exists>t m. s = w @ t \<and> n = length w + m \<and> match_here r (lastc prev w) t = Some m"
proof (induction w arbitrary: prev s n)
  case Nil
  thus ?case by (simp add: lits_def)
next
  case (Cons c w)
  from Cons.prems obtain xs where s: "s = c # xs"
    by (cases s) (auto simp: lits_def split: if_splits)
  with Cons.prems obtain n' where n: "n = Suc n'" and m: "match_here (lits w @ r) (Some c) xs = Some n'"
    by (auto simp: lits_def)
  from Cons.IH [OF m] obtain t m' where "xs = w @ t" "n' = length w + m'"
      "match_here r (lastc (Some c) w) t = Some m'" by blast
  with s n show ?case by simp
qed

lemma star_shape:
  "match_here (Star k # r) prev s = Some n \<Longrightarrow>
     \<exists>a t m. s = a @ t \<and> (\<forall>x \<in> set a. in_cls k x) \<and> n = length a + m
        \<and> match_here r (lastc prev a) t = Some m"
proof (induction s arbitrary: prev n)
  case Nil
  thus ?case by simp
next
  case (Cons x xs)
  show ?case
  proof (cases "in_cls k x \<and> match_here (Star k # r) (Some x) xs \<noteq> None")
    case True
    then obtain n' where m: "match_here (Star k # r) (Some x) xs = Some n'" by blast
    with True Cons.prems have n: "n = Suc n'" by simp
    from Cons.IH [OF m] obtain a t m' where "xs = a @ t" "\<forall>x \<in> set a. in_cls k x"
       "n' = length a + m'" "match_here r (lastc (Some x) a) t = Some m'" by blast
    with True n have "x # xs = (x # a) @ t \<and> (\<forall>y \<in> set (x # a). in_cls k y)
        \<and> n = length (x # a) + m' \<and> match_here r (lastc prev (x # a)) t = Some m'" by simp
    thus ?thesis by blast
  next
    case False
    with Cons.prems have "match_here r prev (x # xs) = Some n"
      by (auto split: if_splits option.splits)
    hence "x # xs = [] @ (x # xs) \<and> (\<forall>y \<in> set []. in_cls k y) \<and> n = length ([]::string) + n
       \<and> match_here r (lastc prev []) (x # xs) = Some n" by simp
    thus ?thesis by blast
  qed
qed

lemma lazy_shape:
  "match_here (LazyStar k # r) prev s = Some n \<Longrightarrow>
     \<exists>a t m. s = a @ t \<and> (\<forall>x \<in> set a. in_cls k x) \<and> n = length a + m
        \<and> match_here r (lastc prev a) t = Some m"
proof (induction s arbitrary: prev n)
  case Nil
  thus ?case by simp
next
  case (Cons x xs)
  show ?case
  proof (cases "match_here r prev (x # xs)")
    case (Some n0)
    with Cons.prems have "n = n0" by simp
    with Some have "x # xs = [] @ (x # xs) \<and> (\<forall>y \<in> set []. in_cls k y) \<and> n = length ([]::string) + n
       \<and> match_here r (lastc prev []) (x # xs) = Some n" by simp
    thus ?thesis by blast
  next
    case None
    with Cons.prems obtain n' where c: "in_cls k x" and n: "n = Suc n'"
        and m: "match_here (LazyStar k # r) (Some x) xs = Some n'"
      by (auto split: if_splits)
    from Cons.IH [OF m] obtain a t m' where "xs = a @ t" "\<forall>x \<in> set a. in_cls k x"
       "n' = length a + m'" "match_here r (lastc (Some x) a) t = Some m'" by blast
    with c n have "x # xs = (x # a) @ t \<and> (\<forall>y \<in> set (x # a). in_cls k y)
        \<and> n = length (x # a) + m' \<and> match_here r (lastc prev (x # a)) t = Some m'" by simp
    thus ?thesis by blast
  qed
qed

lemma star_run:
  "\<not> in_cls k c \<Longrightarrow> (\<forall>x \<in> set a. in_cls k x) \<Longrightarrow>
   match_here (Star k # Lit c # r) prev (a @ c # t)
     = map_option ((+) (length a)) (match_here (Lit c # r) (lastc prev a) (c # t))"
proof (induction a arbitrary: prev)
  case Nil
  thus ?case by (simp add: option.map_ident)
next
  case (Cons x a)
  hence x: "in_cls k x" "x \<noteq> c" by auto
  from Cons have IH: "match_here (Star k # Lit c # r) (Some x) (a @ c # t)
     = map_option ((+) (length a)) (match_here (Lit c # r) (lastc (Some x) a) (c # t))" by simp
  show ?case
    using x by (simp add: IH split: option.split)
qed

lemma lazy_now:
  "match_here r prev s = Some n \<Longrightarrow> match_here (LazyStar k # r) prev s = Some n"
  by (cases s) simp_all

lemma lazy_run:
  "(\<And>u x v. a = u @ x # v \<Longrightarrow> match_here r (lastc prev u) (x # v @ t) = None) \<Longrightarrow>
   (\<forall>x \<in> set a. in_cls k x) \<Longrightarrow>
   match_here (LazyStar k # r) prev (a @ t)
     = map_option ((+) (length a)) (match_here (LazyStar k # r) (lastc prev a) t)"
proof (induction a arbitrary: prev)
  case Nil
  thus ?case by (simp add: option.map_ident)
next
  case (Cons x a)
  from Cons.prems(1) [of "[]" x a] have now: "match_here r prev (x # a @ t) = None" by simp
  have "\<And>u y v. a = u @ y # v \<Longrightarrow> match_here r (lastc (Some x) u) (y # v @ t) = None"
  proof -
    fix u y v assume "a = u @ y # v"
    hence "x # a = (x # u) @ y # v" by simp
    from Cons.prems(1) [OF this] show "match_here r (lastc (Some x) u) (y # v @ t) = None" by simp
  qed
  with Cons have IH: "match_here (LazyStar k # r) (Some x) (a @ t)
     = map_option ((+) (length a)) (match_here (LazyStar k # r) (lastc (Some x) a) t)" by simp
  show ?case using Cons.prems(2) now by (simp add: IH option.map_comp comp_def)
qed

section \<open>Properties of the replacement\<close>

lemma replace_skip:
  "(\<And>u x v. a = u @ x # v \<Longrightarrow> match_here re (lastc prev u) (x # v @ b) = None) \<Longrightarrow>
   replace_from re repl after prev (a @ b)
     = (case replace_from re repl (after \<and> a = []) (lastc prev a) b of (out, k) \<Rightarrow> (a @ out, k))"
proof (induction a arbitrary: prev after)
  case Nil
  show ?case by simp
next
  case (Cons x a)
  from Cons.prems [of "[]" x a] have now: "match_here re prev (x # a @ b) = None" by simp
  have "\<And>u y v. a = u @ y # v \<Longrightarrow> match_here re (lastc (Some x) u) (y # v @ b) = None"
  proof -
    fix u y v assume "a = u @ y # v"
    hence "x # a = (x # u) @ y # v" by simp
    from Cons.prems [OF this] show "match_here re (lastc (Some x) u) (y # v @ b) = None" by simp
  qed
  hence IH: "replace_from re repl False (Some x) (a @ b)
     = (case replace_from re repl (False \<and> a = []) (lastc (Some x) a) b of (out, k) \<Rightarrow> (a @ out, k))"
    by (rule Cons.IH)
  show ?case using now by (simp add: IH split: prod.split)
qed

lemma replace_none:
  assumes "\<And>u x v. s = u @ x # v \<Longrightarrow> match_here re (lastc prev u) (x # v) = None"
      and "match_here re (lastc prev s) [] = None"
  shows "replace_from re repl after prev s = (s, 0)"
proof -
  have "replace_from re repl after prev (s @ [])
     = (case replace_from re repl (after \<and> s = []) (lastc prev s) [] of (out, k) \<Rightarrow> (s @ out, k))"
    by (rule replace_skip) (simp add: assms(1))
  thus ?thesis by (simp add: assms(2))
qed

lemma replace_hit:
  assumes "match_here re prev (m @ b) = Some (length m)" and "m \<noteq> []"
  shows "replace_from re repl after prev (m @ b)
     = (case replace_from re repl True (lastc prev m) b of (out, k) \<Rightarrow> (repl @ out, Suc k))"
proof -
  from assms(2) obtain x m' where m: "m = x # m'" by (cases m) auto
  have "last (x # m') = last (x # take (length m') (m' @ b))" by simp
  moreover have "lastc prev (x # m') = Some (last (x # m'))" by (simp add: lastc_def)
  ultimately show ?thesis using assms(1) unfolding m
    by (simp del: last.simps lastc_simps)
qed

section \<open>Occurrences of a word in a text\<close>

lemma occurrence_split:
  assumes "c \<notin> set W" and "xs @ c # ys = u @ W @ v"
  shows "(\<exists>w. xs = u @ W @ w \<and> v = w @ c # ys) \<or> (\<exists>w. ys = w @ W @ v \<and> u = xs @ c # w)"
proof -
  from assms(2) have "xs @ (c # ys) = u @ (W @ v)" by simp
  then consider us where "xs = u @ us" "us @ c # ys = W @ v"
    | us where "xs @ us = u" "c # ys = us @ W @ v"
    by (auto simp: append_eq_append_conv2)
  thus ?thesis
  proof cases
    case 1
    from 1(2) consider w where "us = W @ w" "w @ c # ys = v"
      | w where "us @ w = W" "c # ys = w @ v"
      by (auto simp: append_eq_append_conv2)
    thus ?thesis
    proof cases
      case 1
      with \<open>xs = u @ us\<close> show ?thesis by auto
    next
      case 2
      show ?thesis
      proof (cases w)
        case Nil
        with 2 \<open>xs = u @ us\<close> show ?thesis by auto
      next
        case (Cons z zs)
        with 2 have "c \<in> set W" by auto
        with assms(1) show ?thesis by simp
      qed
    qed
  next
    case 2
    show ?thesis
    proof (cases us)
      case Nil
      with 2 assms(1) show ?thesis by (cases W) auto
    next
      case (Cons z zs)
      with 2 show ?thesis by auto
    qed
  qed
qed

lemma first_anchor:
  assumes "g \<notin> set xs" and "g \<notin> set ys" and "xs @ g # r1 = ys @ g # r2"
  shows "xs = ys \<and> r1 = r2"
  using assms
proof (induction xs arbitrary: ys)
  case Nil
  thus ?case by (cases ys) auto
next
  case (Cons x xs)
  thus ?case by (cases ys) auto
qed

section \<open>Properties of the two marker patterns\<close>

lemma standalone_eq: "embedStandaloneRegex = marker_head standalone_rest"
  by (simp add: embedStandaloneRegex_def marker_head_def standalone_rest_def lits_def marker_keyword_def)

lemma start_eq: "embedStartRegex = marker_head start_rest"
  by (simp add: embedStartRegex_def marker_head_def start_rest_def end_regex_def lits_def marker_keyword_def)

lemma head_shape:
  assumes "match_here (marker_head r) prev s = Some n"
  shows "(prev = None \<or> prev = Some newline) \<and>
     (\<exists>a b t m. s = a @ ''<!--'' @ b @ marker_keyword @ t
        \<and> (\<forall>x \<in> set a. x = CHR '' '') \<and> (\<forall>x \<in> set b. in_cls Whitespace x)
        \<and> match_here r (Some CHR ''d'') t = Some m \<and> n = length a + length b + 19 + m)"
proof -
  from assms have p: "prev = None \<or> prev = Some newline"
    and 1: "match_here (Star SpaceChar # lits ''<!--'' @ Star Whitespace # lits marker_keyword @ r) prev s = Some n"
    by (auto simp: marker_head_def split: if_splits)
  from star_shape [OF 1] obtain a t1 m1 where a: "s = a @ t1" "\<forall>x \<in> set a. in_cls SpaceChar x"
     "n = length a + m1"
     and 2: "match_here (lits ''<!--'' @ Star Whitespace # lits marker_keyword @ r) (lastc prev a) t1 = Some m1"
    by blast
  from lits_shape [OF 2] obtain t2 m2 where b: "t1 = ''<!--'' @ t2" "m1 = length ''<!--'' + m2"
     and 3: "match_here (Star Whitespace # lits marker_keyword @ r) (lastc (lastc prev a) ''<!--'') t2 = Some m2"
    by blast
  from star_shape [OF 3] obtain b t3 m3 where c: "t2 = b @ t3" "\<forall>x \<in> set b. in_cls Whitespace x"
     "m2 = length b + m3"
     and 4: "match_here (lits marker_keyword @ r) (lastc (lastc (lastc prev a) ''<!--'') b) t3 = Some m3"
    by blast
  from lits_shape [OF 4] obtain t m where d: "t3 = marker_keyword @ t" "m3 = length marker_keyword + m"
     and 5: "match_here r (lastc (lastc (lastc (lastc prev a) ''<!--'') b) marker_keyword) t = Some m"
    by blast
  from 5 have 6: "match_here r (Some CHR ''d'') t = Some m" by (simp add: marker_keyword_def)
  have "s = a @ ''<!--'' @ b @ marker_keyword @ t" using a b c d by simp
  moreover have "n = length a + length b + 19 + m" using a b c d by (simp add: marker_keyword_def)
  moreover have "\<forall>x \<in> set a. x = CHR '' ''" using a(2) by simp
  ultimately show ?thesis using p c(2) 6 by blast
qed

lemma head_run:
  assumes "prev = None \<or> prev = Some newline" and "\<forall>x \<in> set indent. x = CHR '' ''"
  shows "match_here (marker_head r) prev (indent @ ''<!-- gomarkdoc:Embed'' @ t)
     = map_option ((+) (length indent + 20)) (match_here r (Some CHR ''d'') t)"
proof -
  have "match_here (marker_head r) prev (indent @ ''<!-- gomarkdoc:Embed'' @ t)
     = match_here (Star SpaceChar # Lit CHR ''<'' # (lits ''!--'' @ Star Whitespace # lits marker_keyword @ r))
         prev (indent @ CHR ''<'' # (''!-- gomarkdoc:Embed'' @ t))"
    using assms(1) by (auto simp: marker_head_def lits_def)
  also have "\<dots> = map_option ((+) (length indent))
       (match_here (Lit CHR ''<'' # (lits ''!--'' @ Star Whitespace # lits marker_keyword @ r))
          (lastc prev indent) (CHR ''<'' # (''!-- gomarkdoc:Embed'' @ t)))"
    by (rule star_run) (use assms(2) in auto)
  also have "match_here (Lit CHR ''<'' # (lits ''!--'' @ Star Whitespace # lits marker_keyword @ r))
          (lastc prev indent) (CHR ''<'' # (''!-- gomarkdoc:Embed'' @ t))
     = map_option ((+) 20) (match_here r (Some CHR ''d'') t)"
    by (simp add: lits_def marker_keyword_def option.map_comp comp_def split: option.split)
  finally show ?thesis by (cases "match_here r (Some CHR ''d'') t") simp_all
qed

lemma keyword_split: "marker_keyword = CHR ''g'' # ''omarkdoc:Embed''"
  by (simp add: marker_keyword_def)

lemma g_notin_ws: "\<forall>x \<in> set b. in_cls Whitespace x \<Longrightarrow> CHR ''g'' \<notin> set b"
proof
  assume "\<forall>x \<in> set b. in_cls Whitespace x" and "CHR ''g'' \<in> set b"
  hence "in_cls Whitespace CHR ''g''" by (rule bspec)
  thus False by simp
qed

lemma align:
  assumes "a @ ''<!--'' @ b = z @ ''<!-- ''" and "\<forall>x \<in> set b. in_cls Whitespace x"
  shows "a = z \<and> b = '' ''"
proof (cases b rule: rev_cases)
  case Nil
  with assms(1) have "last (a @ ''<!--'') = last (z @ ''<!-- '')" by simp
  thus ?thesis by simp
next
  case (snoc b' c)
  with assms(1) have "(a @ ''<!--'' @ b') @ [c] = (z @ ''<!--'') @ [CHR '' '']" by simp
  hence 1: "a @ ''<!--'' @ b' = z @ ''<!--''" and c: "c = CHR '' ''" by auto
  show ?thesis
  proof (cases b' rule: rev_cases)
    case Nil
    with 1 c snoc show ?thesis by simp
  next
    case (snoc b'' d)
    with 1 have "(a @ ''<!--'' @ b'') @ [d] = (z @ ''<!-'') @ [CHR ''-'']" by simp
    hence "d = CHR ''-''" by auto
    moreover from assms(2) \<open>b = b' @ [c]\<close> snoc have "in_cls Whitespace d" by simp
    ultimately show ?thesis by simp
  qed
qed

lemma locate:
  assumes eq: "y @ z @ marker_keyword @ t0 = h @ marker_keyword @ t"
      and h: "CHR ''g'' \<notin> set h"
      and y: "\<not> sublist marker_keyword y"
      and z: "CHR ''g'' \<notin> set z" "z \<noteq> []" "hd z \<notin> set marker_keyword"
  shows "h = y @ z \<and> t = t0"
proof -
  from z(2) obtain c z' where zc: "z = c # z'" by (cases z) auto
  with z(3) have c: "c \<notin> set marker_keyword" by simp
  from eq zc have "y @ c # (z' @ marker_keyword @ t0) = h @ marker_keyword @ t" by simp
  from occurrence_split [OF c this]
  consider w where "y = h @ marker_keyword @ w"
    | w where "z' @ marker_keyword @ t0 = w @ marker_keyword @ t" "h = y @ c # w"
    by blast
  thus ?thesis
  proof cases
    case 1
    hence "sublist marker_keyword y" by (auto simp: sublist_def)
    with y show ?thesis by simp
  next
    case 2
    from 2(2) h have w: "CHR ''g'' \<notin> set w" by simp
    from z(1) zc have z': "CHR ''g'' \<notin> set z'" by simp
    from 2(1) have "z' @ CHR ''g'' # (''omarkdoc:Embed'' @ t0) = w @ CHR ''g'' # (''omarkdoc:Embed'' @ t)"
      by (simp add: keyword_split)
    from first_anchor [OF z' w this] have "z' = w" "t0 = t" by simp_all
    with 2(2) zc show ?thesis by simp
  qed
qed

lemma head_shape_anchor:
  assumes "match_here (marker_head r) prev s = Some n"
  obtains a b t m where "s = (a @ ''<!--'' @ b) @ marker_keyword @ t"
    "\<forall>x \<in> set a. x = CHR '' ''" "\<forall>x \<in> set b. in_cls Whitespace x"
    "CHR ''g'' \<notin> set (a @ ''<!--'' @ b)"
    "match_here r (Some CHR ''d'') t = Some m" "prev = None \<or> prev = Some newline"
proof -
  from head_shape [OF assms] have p: "prev = None \<or> prev = Some newline"
    and ex: "\<exists>a b t m. s = a @ ''<!--'' @ b @ marker_keyword @ t
        \<and> (\<forall>x \<in> set a. x = CHR '' '') \<and> (\<forall>x \<in> set b. in_cls Whitespace x)
        \<and> match_here r (Some CHR ''d'') t = Some m \<and> n = length a + length b + 19 + m"
    by (rule conjunct1, rule conjunct2)
  from ex obtain a b t m where
    1: "s = a @ ''<!--'' @ b @ marker_keyword @ t" "\<forall>x \<in> set a. x = CHR '' ''"
       "\<forall>x \<in> set b. in_cls Whitespace x" "match_here r (Some CHR ''d'') t = Some m"
    by (elim exE conjE)
  have a_g: "CHR ''g'' \<notin> set a"
  proof
    assume "CHR ''g'' \<in> set a"
    with 1(2) have "CHR ''g'' = CHR '' ''" by (rule bspec)
    thus False by simp
  qed
  from 1(3) have "CHR ''g'' \<notin> set b" by (rule g_notin_ws)
  with a_g have g: "CHR ''g'' \<notin> set (a @ ''<!--'' @ b)" by simp
  from 1(1) have s: "s = (a @ ''<!--'' @ b) @ marker_keyword @ t" by simp
  show thesis by (rule that [OF s 1(2) 1(3) g 1(4) p])
qed

lemma needs_keyword:
  "match_here (marker_head r) prev s = Some n \<Longrightarrow> sublist marker_keyword s"
proof -
  assume "match_here (marker_head r) prev s = Some n"
  then obtain a b t where "s = (a @ ''<!--'' @ b) @ marker_keyword @ t"
    by (rule head_shape_anchor)
  thus ?thesis unfolding sublist_def by blast
qed

lemma sublist_suffix_part: "sublist w (x # v) \<Longrightarrow> sublist w (u @ x # v)"
proof -
  assume "sublist w (x # v)"
  then obtain ps ss where "x # v = ps @ w @ ss" by (auto simp: sublist_def)
  hence "u @ x # v = (u @ ps) @ w @ ss" by simp
  thus ?thesis unfolding sublist_def by blast
qed

lemma only_spaces: "\<forall>x \<in> set a. x = CHR '' '' \<Longrightarrow> c \<in> set a \<Longrightarrow> c = CHR '' ''"
  by (rule bspec)

lemma free_suffix_part:
  "\<not> sublist w pre \<Longrightarrow> pre = u @ x # v \<Longrightarrow> \<not> sublist w (x # v)"
proof
  assume "\<not> sublist w pre" and "pre = u @ x # v" and "sublist w (x # v)"
  from this(3) have "sublist w (u @ x # v)" by (rule sublist_suffix_part)
  with \<open>\<not> sublist w pre\<close> \<open>pre = u @ x # v\<close> show False by simp
qed

lemma indent_opener:
  assumes "\<forall>c \<in> set indent. c = CHR '' ''"
  shows "CHR ''g'' \<notin> set (indent @ ''<!-- '')" and "hd (indent @ ''<!-- '') \<notin> set marker_keyword"
proof -
  have "CHR ''g'' \<notin> set indent"
  proof
    assume "CHR ''g'' \<in> set indent"
    with assms have "CHR ''g'' = CHR '' ''" by (rule only_spaces)
    thus False by simp
  qed
  thus "CHR ''g'' \<notin> set (indent @ ''<!-- '')" by simp
  show "hd (indent @ ''<!-- '') \<notin> set marker_keyword"
  proof (cases indent)
    case Nil
    thus ?thesis by (simp add: marker_keyword_def)
  next
    case (Cons c cs)
    with assms have "c = CHR '' ''" by simp
    with Cons show ?thesis by (simp add: marker_keyword_def)
  qed
qed

lemma pre_nomatch:
  assumes free: "\<not> sublist marker_keyword pre" and nl: "last pre = newline"
      and split: "pre = u @ x # v" and indent: "\<forall>c \<in> set indent. c = CHR '' ''"
  shows "match_here (marker_head r) p (x # v @ indent @ ''<!-- '' @ marker_keyword @ t0) = None"
proof (cases "match_here (marker_head r) p (x # v @ indent @ ''<!-- '' @ marker_keyword @ t0)")
  case None
  thus ?thesis .
next
  case (Some n)
  then obtain a b t m where s: "x # v @ indent @ ''<!-- '' @ marker_keyword @ t0 = (a @ ''<!--'' @ b) @ marker_keyword @ t"
    and a: "\<forall>x \<in> set a. x = CHR '' ''" and b: "\<forall>x \<in> set b. in_cls Whitespace x"
    and g: "CHR ''g'' \<notin> set (a @ ''<!--'' @ b)"
    by (rule head_shape_anchor)
  from free split have y: "\<not> sublist marker_keyword (x # v)"
    by (rule free_suffix_part)
  note gz = indent_opener(1) [OF indent] and hz = indent_opener(2) [OF indent]
  from s have "(x # v) @ (indent @ ''<!-- '') @ marker_keyword @ t0 = (a @ ''<!--'' @ b) @ marker_keyword @ t"
    by simp
  from locate [OF this g y gz _ hz] have "a @ ''<!--'' @ b = (x # v) @ indent @ ''<!-- ''" by simp
  hence "a @ ''<!--'' @ b = ((x # v) @ indent) @ ''<!-- ''" by simp
  from align [OF this b] have a_eq: "a = (x # v) @ indent" by simp
  from split nl have "last (x # v) = newline" by simp
  hence "newline \<in> set (x # v)" using last_in_set [of "x # v"] by simp
  hence "newline \<in> set ((x # v) @ indent)" by (simp only: set_append Un_iff simp_thms)
  hence "newline \<in> set a" by (simp only: a_eq)
  with a have "newline = CHR '' ''" by (rule only_spaces)
  thus ?thesis by (simp add: newline_def)
qed

lemma bol_fails:
  "prev = Some c \<Longrightarrow> c \<noteq> newline \<Longrightarrow> match_here (marker_head r) prev s = None"
  by (simp add: marker_head_def)

lemma standalone_rest_colon: "match_here standalone_rest p (CHR '':'' # t) = None"
  by (simp add: standalone_rest_def lits_def)

lemma mid_nomatch_standalone:
  assumes free: "\<not> sublist marker_keyword mid" and split: "mid = u @ x # v"
  shows "match_here (marker_head standalone_rest) p
           (x # v @ ''<!-- '' @ marker_keyword @ CHR '':'' # t0) = None"
proof (cases "match_here (marker_head standalone_rest) p
           (x # v @ ''<!-- '' @ marker_keyword @ CHR '':'' # t0)")
  case None
  thus ?thesis .
next
  case (Some n)
  then obtain a b t m where s: "x # v @ ''<!-- '' @ marker_keyword @ CHR '':'' # t0 = (a @ ''<!--'' @ b) @ marker_keyword @ t"
    and g: "CHR ''g'' \<notin> set (a @ ''<!--'' @ b)"
    and m: "match_here standalone_rest (Some CHR ''d'') t = Some m"
    by (rule head_shape_anchor)
  from free split have y: "\<not> sublist marker_keyword (x # v)"
    by (rule free_suffix_part)
  from s have "(x # v) @ ''<!-- '' @ marker_keyword @ CHR '':'' # t0 = (a @ ''<!--'' @ b) @ marker_keyword @ t"
    by simp
  from locate [OF this g y] have "t = CHR '':'' # t0" by (simp add: marker_keyword_def)
  with m show ?thesis by (simp add: standalone_rest_colon)
qed

lemma end_nomatch:
  assumes free: "\<not> sublist marker_keyword mid" and split: "mid = u @ x # v"
  shows "match_here end_regex p (x # v @ ''<!-- '' @ marker_keyword @ t0) = None"
proof (cases "match_here end_regex p (x # v @ ''<!-- '' @ marker_keyword @ t0)")
  case None
  thus ?thesis .
next
  case (Some n)
  hence 1: "match_here (lits ''<!--'' @ Star Whitespace # lits marker_keyword @ lits '':end''
     @ Star Whitespace # lits ''-->'' @ [LazyStar Whitespace, Eol]) p
       (x # v @ ''<!-- '' @ marker_keyword @ t0) = Some n"
    by (simp add: end_regex_def)
  from lits_shape [OF 1] obtain t2 m2 where 2: "x # v @ ''<!-- '' @ marker_keyword @ t0 = ''<!--'' @ t2"
    and 3: "match_here (Star Whitespace # lits marker_keyword @ lits '':end''
     @ Star Whitespace # lits ''-->'' @ [LazyStar Whitespace, Eol]) (lastc p ''<!--'') t2 = Some m2"
    by blast
  from star_shape [OF 3] obtain b t3 m3 where 4: "t2 = b @ t3" and b: "\<forall>x \<in> set b. in_cls Whitespace x"
    and 5: "match_here (lits marker_keyword @ lits '':end''
     @ Star Whitespace # lits ''-->'' @ [LazyStar Whitespace, Eol]) (lastc (lastc p ''<!--'') b) t3 = Some m3"
    by blast
  from lits_shape [OF 5] obtain t where 6: "t3 = marker_keyword @ t" by blast
  from b have "CHR ''g'' \<notin> set b" by (rule g_notin_ws)
  hence g: "CHR ''g'' \<notin> set ([] @ ''<!--'' @ b)" by simp
  from free split have y: "\<not> sublist marker_keyword (x # v)"
    by (rule free_suffix_part)
  from 2 4 6 have "(x # v) @ ''<!-- '' @ marker_keyword @ t0 = ([] @ ''<!--'' @ b) @ marker_keyword @ t"
    by simp
  from locate [OF this g y] have "[] @ ''<!--'' @ b = (x # v) @ ''<!-- ''"
    by (simp add: marker_keyword_def)
  from align [OF this b] show ?thesis by simp
qed

lemma tail_now:
  "post = [] \<or> hd post = newline \<Longrightarrow> match_here [LazyStar Whitespace, Eol] p post = Some 0"
  by (cases post) simp_all

lemma end_run:
  assumes "post = [] \<or> hd post = newline"
  shows "match_here end_regex p (end_marker @ post) = Some (length end_marker)"
  by (simp add: end_regex_def end_marker_def lits_def marker_keyword_def tail_now [OF assms])

lemma line_start_lastc:
  "pre = [] \<or> last pre = newline \<Longrightarrow> lastc None pre = None \<or> lastc None pre = Some newline"
  by (auto simp: lastc_def)

lemma start_rest_run:
  assumes mid: "\<not> sublist marker_keyword mid" and post: "post = [] \<or> hd post = newline"
  shows "match_here start_rest p ('':start -->'' @ mid @ end_marker @ post)
     = Some (10 + length mid + length end_marker)"
proof -
  have no: "match_here end_regex (lastc (Some CHR ''>'') u) (x # v @ end_marker @ post) = None"
    if "mid = u @ x # v" for u x v
  proof -
    have "match_here end_regex (lastc (Some CHR ''>'') u)
            (x # v @ ''<!-- '' @ marker_keyword @ ('':end -->'' @ post)) = None"
      using mid that by (rule end_nomatch)
    thus ?thesis by (simp add: end_marker_def marker_keyword_def)
  qed
  have any: "\<forall>x \<in> set mid. in_cls AnyChar x" by simp
  have "match_here (LazyStar AnyChar # end_regex) (Some CHR ''>'') (mid @ end_marker @ post)
     = map_option ((+) (length mid))
         (match_here (LazyStar AnyChar # end_regex) (lastc (Some CHR ''>'') mid) (end_marker @ post))"
    using no any by (rule lazy_run)
  also have "match_here (LazyStar AnyChar # end_regex) (lastc (Some CHR ''>'') mid) (end_marker @ post)
     = Some (length end_marker)"
    by (rule lazy_now) (rule end_run [OF post])
  finally have lazy: "match_here (LazyStar AnyChar # end_regex) (Some CHR ''>'') (mid @ end_marker @ post)
     = Some (length mid + length end_marker)" by simp
  show ?thesis
    by (simp add: start_rest_def lits_def lazy)
qed

lemma start_hit:
  assumes prev: "prev = None \<or> prev = Some newline"
      and indent: "\<forall>x \<in> set indent. x = CHR '' ''"
      and mid: "\<not> sublist marker_keyword mid" and post: "post = [] \<or> hd post = newline"
  shows "match_here (marker_head start_rest) prev ((indent @ start_marker @ mid @ end_marker) @ post)
     = Some (length (indent @ start_marker @ mid @ end_marker))"
proof -
  have "match_here (marker_head start_rest) prev
          (indent @ ''<!-- gomarkdoc:Embed'' @ ('':start -->'' @ mid @ end_marker @ post))
     = map_option ((+) (length indent + 20))
         (match_here start_rest (Some CHR ''d'') ('':start -->'' @ mid @ end_marker @ post))"
    using prev indent by (rule head_run)
  also have "\<dots> = Some (length indent + 20 + (10 + length mid + length end_marker))"
    by (simp only: start_rest_run [OF mid post] option.map)
  finally show ?thesis by (simp add: start_marker_def)
qed


section \<open>The two passes of EmbedContents over a file with one marker\<close>

lemma post_nomatch:
  assumes "\<not> sublist marker_keyword post"
  shows "replace_from (marker_head r) repl after prev post = (post, 0)"
proof (rule replace_none)
  fix u x v assume split: "post = u @ x # v"
  show "match_here (marker_head r) (lastc prev u) (x # v) = None"
  proof (cases "match_here (marker_head r) (lastc prev u) (x # v)")
    case None
    thus ?thesis .
  next
    case (Some n)
    hence "sublist marker_keyword (x # v)" by (rule needs_keyword)
    moreover from assms split have "\<not> sublist marker_keyword (x # v)" by (rule free_suffix_part)
    ultimately show ?thesis by simp
  qed
next
  show "match_here (marker_head r) (lastc prev post) [] = None"
  proof (cases "match_here (marker_head r) (lastc prev post) []")
    case None
    thus ?thesis .
  next
    case (Some n)
    hence "sublist marker_keyword []" by (rule needs_keyword)
    thus ?thesis by (simp add: marker_keyword_def)
  qed
qed

lemma pre_skip:
  assumes free: "\<not> sublist marker_keyword pre" and nl: "pre = [] \<or> last pre = newline"
      and indent: "\<forall>c \<in> set indent. c = CHR '' ''"
  shows "replace_from (marker_head r) repl False None (pre @ indent @ ''<!-- '' @ marker_keyword @ t0)
     = (case replace_from (marker_head r) repl False (lastc None pre) (indent @ ''<!-- '' @ marker_keyword @ t0)
        of (out, k) \<Rightarrow> (pre @ out, k))"
proof -
  have "replace_from (marker_head r) repl False None (pre @ indent @ ''<!-- '' @ marker_keyword @ t0)
     = (case replace_from (marker_head r) repl (False \<and> pre = []) (lastc None pre)
               (indent @ ''<!-- '' @ marker_keyword @ t0)
        of (out, k) \<Rightarrow> (pre @ out, k))"
  proof (rule replace_skip)
    fix u x v assume split: "pre = u @ x # v"
    with nl have "last pre = newline" by auto
    with free show "match_here (marker_head r) (lastc None u)
        (x # v @ indent @ ''<!-- '' @ marker_keyword @ t0) = None"
      using split indent by (rule pre_nomatch)
  qed
  thus ?thesis by simp
qed

lemma start_pass_region:
  assumes pre: "\<not> sublist marker_keyword pre" "pre = [] \<or> last pre = newline"
      and indent: "\<forall>c \<in> set indent. c = CHR '' ''"
      and mid: "\<not> sublist marker_keyword mid"
      and post: "\<not> sublist marker_keyword post" "post = [] \<or> hd post = newline"
  shows "ReplaceAllFunc embedStartRegex (pre @ indent @ start_marker @ mid @ end_marker @ post) repl
     = (pre @ repl @ post, 1)"
proof -
  let ?re = "marker_head start_rest"
  let ?m = "indent @ start_marker @ mid @ end_marker"
  have prev: "lastc None pre = None \<or> lastc None pre = Some newline"
    using pre(2) by (rule line_start_lastc)
  have m: "?m \<noteq> []" by (simp add: start_marker_def)
  have hit: "replace_from ?re repl False (lastc None pre) (?m @ post)
     = (case replace_from ?re repl True (lastc (lastc None pre) ?m) post of
          (out, k) \<Rightarrow> (repl @ out, Suc k))"
    by (rule replace_hit [OF start_hit [OF prev indent mid post(2)] m])
  have rest: "replace_from ?re repl True (lastc (lastc None pre) ?m) post = (post, 0)"
    using post(1) by (rule post_nomatch)
  have "replace_from ?re repl False None
          (pre @ indent @ ''<!-- '' @ marker_keyword @ ('':start -->'' @ mid @ end_marker @ post))
     = (case replace_from ?re repl False (lastc None pre)
               (indent @ ''<!-- '' @ marker_keyword @ ('':start -->'' @ mid @ end_marker @ post))
        of (out, k) \<Rightarrow> (pre @ out, k))"
    using pre indent by (rule pre_skip)
  moreover have "indent @ ''<!-- '' @ marker_keyword @ ('':start -->'' @ mid @ end_marker @ post)
     = ?m @ post" by (simp add: start_marker_def marker_keyword_def)
  ultimately have "replace_from ?re repl False None (pre @ ?m @ post)
     = (case replace_from ?re repl False (lastc None pre) (?m @ post) of (out, k) \<Rightarrow> (pre @ out, k))"
    by (simp only:)
  hence "replace_from ?re repl False None (pre @ ?m @ post) = (pre @ repl @ post, 1)"
    by (simp only: hit rest prod.case One_nat_def)
  thus ?thesis by (simp add: ReplaceAllFunc_def start_eq)
qed


lemma standalone_on_marker_line:
  assumes indent: "\<forall>c \<in> set indent. c = CHR '' ''"
  shows "match_here (marker_head standalone_rest) prev
           (indent @ ''<!-- gomarkdoc:Embed'' @ CHR '':'' # t) = None"
proof (cases "prev = None \<or> prev = Some newline")
  case True
  hence "match_here (marker_head standalone_rest) prev (indent @ ''<!-- gomarkdoc:Embed'' @ CHR '':'' # t)
     = map_option ((+) (length indent + 20)) (match_here standalone_rest (Some CHR ''d'') (CHR '':'' # t))"
    using indent by (rule head_run)
  thus ?thesis by (simp only: standalone_rest_colon option.map)
next
  case False
  then obtain c where "prev = Some c" "c \<noteq> newline" by (cases prev) simp_all
  thus ?thesis by (rule bol_fails)
qed

lemma marker_block:
  assumes indent: "\<forall>c \<in> set indent. c = CHR '' ''"
      and w: "newline \<notin> set w"
      and split: "indent @ ''<!-- gomarkdoc:Embed'' @ CHR '':'' # w = u @ x # v"
  shows "match_here (marker_head standalone_rest) (lastc p u) (x # v @ t) = None"
proof (cases u rule: rev_cases)
  case Nil
  have "match_here (marker_head standalone_rest) p
          (indent @ ''<!-- gomarkdoc:Embed'' @ CHR '':'' # (w @ t)) = None"
    by (rule standalone_on_marker_line [OF indent])
  moreover from split Nil have "x # v @ t = indent @ ''<!-- gomarkdoc:Embed'' @ CHR '':'' # (w @ t)"
    by simp
  moreover from Nil have "lastc p u = p" by simp
  ultimately show ?thesis by (simp only:)
next
  case (snoc u' c)
  have "newline \<notin> set indent"
  proof
    assume "newline \<in> set indent"
    with indent have "newline = CHR '' ''" by (rule only_spaces)
    thus False by (simp add: newline_def)
  qed
  with w have "newline \<notin> set (indent @ ''<!-- gomarkdoc:Embed'' @ CHR '':'' # w)"
    by (simp add: newline_def)
  hence "newline \<notin> set (u @ x # v)" by (subst split [symmetric])
  with snoc have "c \<noteq> newline" by auto
  moreover from snoc have "lastc p u = Some c" by simp
  ultimately show ?thesis by (rule bol_fails [rotated])
qed

lemma replace_skip_zero:
  assumes "\<And>u x v. a = u @ x # v \<Longrightarrow> match_here re (lastc prev u) (x # v @ b) = None"
      and "\<And>f p. replace_from re repl f p b = (b, 0)"
  shows "replace_from re repl after prev (a @ b) = (a @ b, 0)"
proof -
  have "replace_from re repl after prev (a @ b)
     = (case replace_from re repl (after \<and> a = []) (lastc prev a) b of (out, k) \<Rightarrow> (a @ out, k))"
    using assms(1) by (rule replace_skip)
  thus ?thesis by (simp only: assms(2) prod.case)
qed

lemma standalone_pass_region:
  assumes pre: "\<not> sublist marker_keyword pre" "pre = [] \<or> last pre = newline"
      and indent: "\<forall>c \<in> set indent. c = CHR '' ''"
      and mid: "\<not> sublist marker_keyword mid"
      and post: "\<not> sublist marker_keyword post"
  shows "ReplaceAllFunc embedStandaloneRegex (pre @ indent @ start_marker @ mid @ end_marker @ post) repl
     = (pre @ indent @ start_marker @ mid @ end_marker @ post, 0)"
proof -
  let ?re = "marker_head standalone_rest"
  have 5: "replace_from ?re repl f p post = (post, 0)" for f p
    using post by (rule post_nomatch)
  have 4: "replace_from ?re repl f p (end_marker @ post) = (end_marker @ post, 0)" for f p
  proof (rule replace_skip_zero [OF _ 5])
    fix u x v assume "end_marker = u @ x # v"
    hence "[] @ ''<!-- gomarkdoc:Embed'' @ CHR '':'' # ''end -->'' = u @ x # v"
      by (simp add: end_marker_def)
    thus "match_here ?re (lastc p u) (x # v @ post) = None"
      by (rule marker_block [rotated 2]) (simp_all add: newline_def)
  qed
  have 3: "replace_from ?re repl f p (mid @ end_marker @ post) = (mid @ end_marker @ post, 0)" for f p
  proof (rule replace_skip_zero [OF _ 4])
    fix u x v assume split: "mid = u @ x # v"
    have "match_here ?re (lastc p u) (x # v @ ''<!-- '' @ marker_keyword @ CHR '':'' # (''end -->'' @ post)) = None"
      using mid split by (rule mid_nomatch_standalone)
    thus "match_here ?re (lastc p u) (x # v @ end_marker @ post) = None"
      by (simp add: end_marker_def marker_keyword_def)
  qed
  have 2: "replace_from ?re repl f p ((indent @ start_marker) @ mid @ end_marker @ post)
     = ((indent @ start_marker) @ mid @ end_marker @ post, 0)" for f p
  proof (rule replace_skip_zero [OF _ 3])
    fix u x v assume "indent @ start_marker = u @ x # v"
    hence sp: "indent @ ''<!-- gomarkdoc:Embed'' @ CHR '':'' # ''start -->'' = u @ x # v"
      by (simp add: start_marker_def)
    show "match_here ?re (lastc p u) (x # v @ mid @ end_marker @ post) = None"
      by (rule marker_block [OF indent _ sp]) (simp add: newline_def)
  qed
  have 1: "replace_from ?re repl False None (pre @ (indent @ start_marker) @ mid @ end_marker @ post)
     = (pre @ (indent @ start_marker) @ mid @ end_marker @ post, 0)"
  proof (rule replace_skip_zero [OF _ 2])
    fix u x v assume split: "pre = u @ x # v"
    with pre(2) have nl: "last pre = newline" by auto
    have "match_here ?re (lastc None u)
        (x # v @ indent @ ''<!-- '' @ marker_keyword @ ('':start -->'' @ mid @ end_marker @ post)) = None"
      using pre(1) nl split indent by (rule pre_nomatch)
    thus "match_here ?re (lastc None u) (x # v @ (indent @ start_marker) @ mid @ end_marker @ post) = None"
      by (simp add: start_marker_def marker_keyword_def)
  qed
  thus ?thesis by (simp add: ReplaceAllFunc_def standalone_eq)
qed

lemma free_cons:
  assumes "c \<notin> set W" and "W \<noteq> []" and "\<not> sublist W ys"
  shows "\<not> sublist W (c # ys)"
proof
  assume "sublist W (c # ys)"
  then obtain u v where "[] @ c # ys = u @ W @ v" by (auto simp: sublist_def)
  from occurrence_split [OF assms(1) this] assms(2) have "\<exists>w. ys = w @ W @ v" by auto
  hence "sublist W ys" by (auto simp: sublist_def)
  with assms(3) show False by simp
qed

lemma free_snoc:
  assumes "c \<notin> set W" and "W \<noteq> []" and "\<not> sublist W xs"
  shows "\<not> sublist W (xs @ [c])"
proof
  assume "sublist W (xs @ [c])"
  then obtain u v where "xs @ c # [] = u @ W @ v" by (auto simp: sublist_def)
  from occurrence_split [OF assms(1) this] assms(2) have "\<exists>w. xs = u @ W @ w" by auto
  hence "sublist W xs" by (auto simp: sublist_def)
  with assms(3) show False by simp
qed

lemma free_wrap:
  assumes "\<not> sublist marker_keyword text"
  shows "\<not> sublist marker_keyword ([newline, newline] @ text @ [newline, newline])"
proof -
  have n: "newline \<notin> set marker_keyword" and k: "marker_keyword \<noteq> []"
    by (simp_all add: marker_keyword_def newline_def)
  from assms have "\<not> sublist marker_keyword (text @ [newline])" by (rule free_snoc [OF n k])
  hence "\<not> sublist marker_keyword ((text @ [newline]) @ [newline])" by (rule free_snoc [OF n k])
  hence "\<not> sublist marker_keyword (newline # (text @ [newline]) @ [newline])" by (rule free_cons [OF n k])
  hence "\<not> sublist marker_keyword (newline # newline # (text @ [newline]) @ [newline])"
    by (rule free_cons [OF n k])
  thus ?thesis by simp
qed

lemma embedText_markers:
  "embedText text = start_marker @ ([newline, newline] @ text @ [newline, newline]) @ end_marker"
  by (simp add: embedText_def start_marker_def end_marker_def)

lemma embed_region:
  assumes content: "files w fileName = Content (pre @ indent @ start_marker @ mid @ end_marker @ post)"
      and pre: "\<not> sublist marker_keyword pre" "pre = [] \<or> last pre = newline"
      and indent: "\<forall>c \<in> set indent. c = CHR '' ''"
      and mid: "\<not> sublist marker_keyword mid"
      and post: "\<not> sublist marker_keyword post" "post = [] \<or> hd post = newline"
  shows "EmbedContents w fileName text = pre @ embedText text @ post"
  by (simp add: EmbedContents_def os_ReadFile_def content
        standalone_pass_region [OF pre indent mid post(1)]
        start_pass_region [OF pre indent mid post])


section \<open>Properties of EmbedContents\<close>

lemma embed_no_keyword:
  assumes content: "files w fileName = Content data" and free: "\<not> sublist marker_keyword data"
  shows "EmbedContents w fileName text = data @ [newline, newline] @ text"
  by (simp add: EmbedContents_def os_ReadFile_def content ReplaceAllFunc_def standalone_eq start_eq
        post_nomatch [OF free])

text \<open>
  C1 fails on the code: for a file without markers the result is the content of the
  file, a blank line and the rendered text as it is, without the start and end
  marker lines around it (lemma \<open>embed_no_keyword\<close> for every such file).
\<close>

theorem EmbedContents_appends_plain_text:
  "EmbedContents (one_file ''README.md'' (Content ''# Title'')) ''README.md'' ''doc''
     = ''# Title'' @ [newline, newline] @ ''doc''
   \<and> EmbedContents (one_file ''README.md'' (Content ''# Title'')) ''README.md'' ''doc''
     \<noteq> ''# Title'' @ [newline, newline] @ embedText ''doc''"
  by (simp add: EmbedContents_def one_file_def os_ReadFile_def ReplaceAllFunc_def
        embedStandaloneRegex_def embedStartRegex_def lits_def newline_def embedText_def)




text \<open>
  C7, as stated, fails: when the rendered text is itself a standalone marker, merging it
  into its own wrapped region changes the file.
\<close>

theorem marker_in_text_not_idempotent:
  "EmbedContents (one_file ''README.md'' (Content (embedText ''<!-- gomarkdoc:Embed -->'')))
     ''README.md'' ''<!-- gomarkdoc:Embed -->''
   \<noteq> embedText ''<!-- gomarkdoc:Embed -->''"
  by (simp add: EmbedContents_def one_file_def os_ReadFile_def ReplaceAllFunc_def
        embedStandaloneRegex_def embedStartRegex_def lits_def newline_def embedText_def)

text \<open>
  C7, amended: for every rendered text in which the keyword \<open>gomarkdoc:Embed\<close> does not
  occur, merging the text into the file that is exactly its wrapped region gives
  that file again.
\<close>

theorem EmbedContents_idempotent:
  assumes "\<not> sublist marker_keyword text" and "files w fileName = Content (embedText text)"
  shows "EmbedContents w fileName text = embedText text"
proof -
  have none: "\<forall>c \<in> set ([]::string). c = CHR '' ''" by simp
  have "files w fileName
      = Content ([] @ [] @ start_marker @ ([newline, newline] @ text @ [newline, newline]) @ end_marker @ [])"
    using assms(2) by (simp add: embedText_markers)
  hence "EmbedContents w fileName text = [] @ embedText text @ []"
    by (rule embed_region [OF _ _ _ none free_wrap [OF assms(1)]])
       (simp_all add: marker_keyword_def)
  thus ?thesis by simp
qed

theorem EmbedContents_idempotent_witness:
  "\<not> sublist marker_keyword ''# doc''
   \<and> EmbedContents (one_file ''README.md'' (Content (embedText ''# doc''))) ''README.md'' ''# doc''
       = embedText ''# doc''"
proof -
  have k: "\<not> sublist marker_keyword ''# doc''"
    by (simp add: marker_keyword_def sublist_code(3))
  have f: "files (one_file ''README.md'' (Content (embedText ''# doc''))) ''README.md''
     = Content (embedText ''# doc'')" by (simp add: one_file_def)
  from EmbedContents_idempotent [OF k f] k show ?thesis by simp
qed

end
